theory Spec2Isabelle
  imports Main
begin

section \<open>Data model of index.js\<close>

text \<open>
  A JavaScript value as far as index.js handles one: a string, or \<open>undefined\<close> (a field of
  the preferences object that was never set, an array read out of range).
\<close>

datatype jsval = Undefined | Str string

fun to_string :: "jsval \<Rightarrow> string" where
  "to_string Undefined = ''undefined''"
| "to_string (Str s) = s"

text \<open>The module-level preferences object \<open>prefs\<close> with the three fields the code uses.\<close>

record credentials =
  username :: jsval
  emailAddress :: jsval
  password :: jsval

text \<open>
  \<open>args.interval\<close> is the number 15 when the argument is left out and the validated string
  otherwise; \<open>args.target\<close> is a string.
\<close>

datatype interval_value = Number nat | Digits string

text \<open>
  A JavaScript number as far as the model follows it: a natural number up to \<open>2^53\<close>, which
  a double holds exactly, or a double of at least \<open>2^53\<close> (up to \<open>Infinity\<close>), whose value
  the model leaves open.
\<close>

datatype jsnum = Exact nat | Big

record args =
  target :: string
  interval :: interval_value

text \<open>
  The calls index.js makes on puppeteer. A call either resolves after some milliseconds with
  a value (only \<open>page.evaluate\<close> yields one that is used) or throws after some milliseconds.
\<close>

datatype page_call =
    Launch | NewPage
  | Goto jsval | Focus string | Type jsval | Click string
  | WaitForNavigation | Evaluate

datatype reply = Resolves nat "jsval list" | Throws nat string

fun took :: "reply \<Rightarrow> nat" where
  "took (Resolves ms v) = ms"
| "took (Throws ms e) = ms"

fun is_throw :: "reply \<Rightarrow> bool" where
  "is_throw (Resolves ms v) = False"
| "is_throw (Throws ms e) = True"

text \<open>
  The browser and the site are the environment: a driver answers a call knowing every call
  made before it and how each one ended.
\<close>

type_synonym driver = "(page_call \<times> reply) list \<Rightarrow> page_call \<Rightarrow> reply"

text \<open>
  What the operator sees. A spinner line names the trade as the source does: the oldest
  trade, or trade \<open>humanIndex/length\<close>. Times are whole seconds; \<open>RunAgainAt\<close> holds what
  the source adds up and formats as HH:mm:ss: the clock value and the minutes.
\<close>

datatype subject = Oldest | Trade nat nat

datatype notice =
    Banner | WillBump string interval_value
  | LoggingIn jsval | LoggedIn jsval
  | Finding | Found nat
  | Bumping subject | Bumped subject int | FailedToBump subject int
  | RunAgainAt nat interval_value
  | Blank | PleaseEnter | LoginAborted | Saving string | Saved string

text \<open>
  The log holds the calls made on puppeteer with their replies, the notices, the timers asked
  for with their delay in milliseconds, the time the process then spent waiting for the timer
  (milliseconds), and each call of a function of index.js.
\<close>

datatype fn = Boot | Login | ScrapeTrades | UpdateTrades | ScheduleUpdateTrades | SetLogin

datatype event =
  Called page_call reply | Notice notice | Timer jsnum | Waited nat | Invoked fn

text \<open>
  The state the program runs in: the preferences object, the clock that \<open>moment()\<close> reads
  (milliseconds), and everything that happened so far, oldest first.
\<close>

record world =
  prefs :: credentials
  clock :: nat
  log :: "event list"

text \<open>A promise settles: fulfilled with a value or rejected with an error.\<close>

datatype 'a completion = Fulfilled 'a | Rejected string

section \<open>Primitives\<close>

definition notify :: "notice \<Rightarrow> world \<Rightarrow> world" where
  "notify n w = w\<lparr>log := log w @ [Notice n]\<rparr>"

definition enter :: "fn \<Rightarrow> world \<Rightarrow> world" where
  "enter f w = w\<lparr>log := log w @ [Invoked f]\<rparr>"

fun page_calls :: "event list \<Rightarrow> (page_call \<times> reply) list" where
  "page_calls [] = []"
| "page_calls (Called c r # es) = (c, r) # page_calls es"
| "page_calls (Notice n # es) = page_calls es"
| "page_calls (Timer d # es) = page_calls es"
| "page_calls (Waited ms # es) = page_calls es"
| "page_calls (Invoked f # es) = page_calls es"

text \<open>\<open>await page.f(...)\<close>: the call is made, time passes, the call is on record.\<close>

definition page_invoke :: "driver \<Rightarrow> page_call \<Rightarrow> world \<Rightarrow> jsval list completion \<times> world" where
  "page_invoke drv c w =
     (let r = drv (page_calls (log w)) c;
          w' = w\<lparr>clock := clock w + took r, log := log w @ [Called c r]\<rparr>
      in case r of
           Resolves ms v \<Rightarrow> (Fulfilled v, w')
         | Throws ms e \<Rightarrow> (Rejected e, w'))"

text \<open>A run of awaited calls whose values are not used: the first one that throws ends it.\<close>

fun awaits :: "driver \<Rightarrow> page_call list \<Rightarrow> world \<Rightarrow> unit completion \<times> world" where
  "awaits drv [] w = (Fulfilled (), w)"
| "awaits drv (c # cs) w =
     (case page_invoke drv c w of
        (Rejected e, w') \<Rightarrow> (Rejected e, w')
      | (Fulfilled v, w') \<Rightarrow> awaits drv cs w')"

text \<open>\<open>xs[i]\<close>: \<open>undefined\<close> outside the array.\<close>

definition js_index :: "jsval list \<Rightarrow> int \<Rightarrow> jsval" where
  "js_index xs i = (if 0 \<le> i \<and> i < int (length xs) then xs ! nat i else Undefined)"

text \<open>
  \<open>a.diff(b, 'seconds')\<close> of moment: the difference in milliseconds over 1000, the
  fraction dropped (towards zero).
\<close>

definition diff_seconds :: "nat \<Rightarrow> nat \<Rightarrow> int" where
  "diff_seconds a b =
     (let d = int a - int b in if d < 0 then - ((- d) div 1000) else d div 1000)"

section \<open>boot, login, scrapeTrades, updateTrades\<close>

definition boot :: "driver \<Rightarrow> args \<Rightarrow> world \<Rightarrow> unit completion \<times> world" where
  "boot drv a w =
     (case awaits drv [Launch, NewPage] (notify Banner (enter Boot w)) of
        (Rejected e, w1) \<Rightarrow> (Rejected e, w1)
      | (Fulfilled u, w1) \<Rightarrow>
          (Fulfilled (),
           notify (WillBump (if target a = ''oldest'' then ''the oldest trade'' else ''all trades'')
                     (interval a)) w1))"

definition login_steps :: "credentials \<Rightarrow> page_call list" where
  "login_steps p =
     [Goto (Str ''https://rocket-league.com/login''),
      Focus ''.rlg-form .rlg-input[type=\"email\"]'',
      Type (emailAddress p),
      Focus ''.rlg-form .rlg-input[type=\"password\"]'',
      Type (password p),
      Click ''.rlg-form .rlg-btn-primary[type=\"submit\"]'',
      WaitForNavigation]"

definition login :: "driver \<Rightarrow> args \<Rightarrow> world \<Rightarrow> unit completion \<times> world" where
  "login drv a w =
     (case awaits drv (login_steps (prefs w))
             (notify (LoggingIn (emailAddress (prefs w))) (enter Login w)) of
        (Rejected e, w1) \<Rightarrow> (Rejected e, w1)
      | (Fulfilled u, w1) \<Rightarrow> (Fulfilled (), notify (LoggedIn (emailAddress (prefs w1))) w1))"

definition trades_page :: "credentials \<Rightarrow> jsval" where
  "trades_page p = Str (''https://rocket-league.com/trades/'' @ to_string (username p))"

definition scrapeTrades :: "driver \<Rightarrow> args \<Rightarrow> world \<Rightarrow> jsval list completion \<times> world" where
  "scrapeTrades drv a w =
     (case page_invoke drv (Goto (trades_page (prefs w))) (notify Finding (enter ScrapeTrades w)) of
        (Rejected e, w1) \<Rightarrow> (Rejected e, w1)
      | (Fulfilled u, w1) \<Rightarrow>
          (case page_invoke drv Evaluate w1 of
             (Rejected e, w2) \<Rightarrow> (Rejected e, w2)
           | (Fulfilled tradeUrls, w2) \<Rightarrow>
               (Fulfilled
                  (if target a = ''oldest''
                   then [js_index tradeUrls (int (length tradeUrls) - 1)]
                   else tradeUrls),
                notify (Found (length tradeUrls)) w2)))"

definition bump_steps :: "jsval \<Rightarrow> page_call list" where
  "bump_steps tradeUrl =
     [Goto tradeUrl,
      Click ''[href^='/trade/edit']'',
      WaitForNavigation,
      Click ''#rlg-addTradeForm input[type=submit]'',
      WaitForNavigation]"

text \<open>
  The loop of updateTrades over \<open>tradeUrls.entries()\<close>: \<open>len\<close> is \<open>tradeUrls.length\<close>,
  \<open>index\<close> the position of the head of the remaining list.
\<close>

fun bump_loop :: "driver \<Rightarrow> args \<Rightarrow> nat \<Rightarrow> nat \<Rightarrow> jsval list \<Rightarrow> world \<Rightarrow> world" where
  "bump_loop drv a len index [] w = w"
| "bump_loop drv a len index (tradeUrl # rest) w =
     (let humanIndex = index + 1;
          start = clock w;
          subj = (if target a = ''oldest'' then Oldest else Trade humanIndex len)
      in case awaits drv (bump_steps tradeUrl) (notify (Bumping subj) w) of
           (Fulfilled u, w1) \<Rightarrow>
             bump_loop drv a len (index + 1) rest
               (notify (Bumped subj (diff_seconds (clock w1) start)) w1)
         | (Rejected error, w1) \<Rightarrow>
             bump_loop drv a len (index + 1) rest
               (notify (FailedToBump subj (diff_seconds (clock w1) start)) w1))"

definition updateTrades :: "driver \<Rightarrow> args \<Rightarrow> jsval list \<Rightarrow> world \<Rightarrow> unit completion \<times> world" where
  "updateTrades drv a tradeUrls w =
     (Fulfilled (), bump_loop drv a (length tradeUrls) 0 tradeUrls (enter UpdateTrades w))"

section \<open>scheduleUpdateTrades and the bump command\<close>

text \<open>
  The minutes that \<open>args.interval\<close> stands for: the number itself, or the decimal value of
  the digit string (the empty string is 0). Only strings that passed the validation of the
  command reach this point.
\<close>

definition digit_value :: "char \<Rightarrow> nat" where
  "digit_value c = of_char c - 48"

definition decimal :: "string \<Rightarrow> nat" where
  "decimal s = foldl (\<lambda>n c. 10 * n + digit_value c) 0 s"

fun minutes_of :: "interval_value \<Rightarrow> nat" where
  "minutes_of (Number n) = n"
| "minutes_of (Digits s) = decimal s"

text \<open>
  Arithmetic turns \<open>args.interval\<close> into a double. A natural number up to \<open>2^53\<close> is held
  exactly; a larger one becomes some double of at least \<open>2^53\<close>.
\<close>

definition exact :: "nat \<Rightarrow> jsnum" where
  "exact n = (if n \<le> 2 ^ 53 then Exact n else Big)"

definition to_number :: "interval_value \<Rightarrow> jsnum" where
  "to_number v = exact (minutes_of v)"

text \<open>\<open>k * x\<close> for a constant \<open>k\<close> of at least 1.\<close>

fun scaled :: "nat \<Rightarrow> jsnum \<Rightarrow> jsnum" where
  "scaled k (Exact m) = exact (k * m)"
| "scaled k Big = Big"

text \<open>\<open>p.then(f)\<close>: \<open>f\<close> runs on the value of a fulfilled promise; a rejection passes through.\<close>

definition andThen ::
  "'a completion \<times> world \<Rightarrow> ('a \<Rightarrow> world \<Rightarrow> 'b completion \<times> world) \<Rightarrow> 'b completion \<times> world" where
  "andThen p f = (case p of (Rejected e, w) \<Rightarrow> (Rejected e, w) | (Fulfilled v, w) \<Rightarrow> f v w)"

text \<open>
  The synchronous part of scheduleUpdateTrades: the notification of the next run and the
  request \<open>setTimeout(callback, 1000 * 60 * minutes)\<close>.
\<close>

definition timer_delay :: "args \<Rightarrow> jsnum" where
  "timer_delay a = scaled (1000 * 60) (to_number (interval a))"

definition set_timeout :: "args \<Rightarrow> world \<Rightarrow> world" where
  "set_timeout a w =
     (let minutes = interval a;
          w0 = notify (RunAgainAt (clock w) minutes) w
      in w0\<lparr>log := log w0 @ [Timer (timer_delay a)]\<rparr>)"

text \<open>
  What \<open>setTimeout\<close> of Node makes of the delay: a delay below 1 or above \<open>2^31 - 1\<close>
  milliseconds is set to 1.
\<close>

fun effective_delay :: "jsnum \<Rightarrow> nat" where
  "effective_delay (Exact d) = (if 1 \<le> d \<and> d \<le> 2147483647 then d else 1)"
| "effective_delay Big = 1"

text \<open>
  The timer fires, and the model takes it to fire on time: the process has waited for the
  delay in effect, and the clock has moved on by it.
\<close>

definition timer_fires :: "args \<Rightarrow> world \<Rightarrow> world" where
  "timer_fires a w =
     (let ms = effective_delay (timer_delay a)
      in w\<lparr>clock := clock w + ms, log := log w @ [Waited ms]\<rparr>)"

text \<open>
  scheduleUpdateTrades never finishes by itself: its callback ends in a call of itself. The
  first argument is the number of times the timer fires before the process is stopped from
  outside; with none left the timer is pending and nothing more happens.
\<close>

fun scheduleUpdateTrades :: "nat \<Rightarrow> driver \<Rightarrow> args \<Rightarrow> world \<Rightarrow> unit completion \<times> world" where
  "scheduleUpdateTrades 0 drv a w = (Fulfilled (), set_timeout a (enter ScheduleUpdateTrades w))"
| "scheduleUpdateTrades (Suc n) drv a w =
     andThen
       (andThen
          (scrapeTrades drv a (timer_fires a (set_timeout a (enter ScheduleUpdateTrades w))))
          (updateTrades drv a))
       (\<lambda>u. scheduleUpdateTrades n drv a)"

text \<open>The action of the bump command.\<close>

definition bump_action :: "nat \<Rightarrow> driver \<Rightarrow> args \<Rightarrow> world \<Rightarrow> unit completion \<times> world" where
  "bump_action n drv a w =
     andThen
       (andThen
          (andThen (andThen (boot drv a w) (\<lambda>u. login drv a)) (\<lambda>u. scrapeTrades drv a))
          (updateTrades drv a))
       (\<lambda>u. scheduleUpdateTrades n drv a)"








section \<open>setLogin\<close>

text \<open>What \<open>prompt.get\<close> hands to its callback: an error, or the three strings entered.\<close>

datatype prompt_result = PromptError string | Entered string string string

definition setLogin :: "prompt_result \<Rightarrow> world \<Rightarrow> world" where
  "setLogin p w =
     (let w0 = notify PleaseEnter (notify Blank (enter SetLogin w))
      in case p of
           PromptError error \<Rightarrow> notify LoginAborted w0
         | Entered u e pw \<Rightarrow>
             (let w1 = notify (Saved e) (notify (Saving e) w0)
              in w1\<lparr>prefs := (prefs w1)\<lparr>username := Str u, emailAddress := Str e, password := Str pw\<rparr>\<rparr>))"

section \<open>Reading the log\<close>

text \<open>Calls with their replies, as events.\<close>

definition called :: "(page_call \<times> reply) list \<Rightarrow> event list" where
  "called cs = map (\<lambda>cr. Called (fst cr) (snd cr)) cs"

text \<open>What a run added to the log.\<close>

definition emitted :: "world \<Rightarrow> world \<Rightarrow> event list" where
  "emitted w w' = drop (length (log w)) (log w')"

text \<open>The targets of \<open>page.goto\<close>, in order.\<close>

fun navigations :: "event list \<Rightarrow> jsval list" where
  "navigations [] = []"
| "navigations (Called (Goto u) r # es) = u # navigations es"
| "navigations (e # es) = navigations es"

text \<open>
  The calls of functions, the timers asked for and the waits for them: the course of a run.
\<close>

fun stages :: "event list \<Rightarrow> event list" where
  "stages [] = []"
| "stages (Invoked f # es) = Invoked f # stages es"
| "stages (Timer d # es) = Timer d # stages es"
| "stages (Waited ms # es) = Waited ms # stages es"
| "stages (e # es) = stages es"

text \<open>The notices, in order.\<close>

fun notices :: "event list \<Rightarrow> notice list" where
  "notices [] = []"
| "notices (Notice n # es) = n # notices es"
| "notices (e # es) = notices es"

text \<open>
  The report of one run of updateTrades is what the spinner said: one line per trade that
  ended in \<open>succeed\<close> or \<open>fail\<close>, with the seconds. The entry of a trade pairs that line with
  the address the loop went to.
\<close>

datatype outcome = SUCCESS | FAILURE

record bump_result =
  index :: nat
  url :: jsval
  outcome :: outcome
  elapsedSeconds :: int

fun verdicts :: "event list \<Rightarrow> (outcome \<times> int) list" where
  "verdicts [] = []"
| "verdicts (Notice (Bumped s t) # es) = (SUCCESS, t) # verdicts es"
| "verdicts (Notice (FailedToBump s t) # es) = (FAILURE, t) # verdicts es"
| "verdicts (e # es) = verdicts es"

definition cycle_report :: "event list \<Rightarrow> bump_result list" where
  "cycle_report es =
     map (\<lambda>(i, u, oc, t). \<lparr>index = i, url = u, outcome = oc, elapsedSeconds = t\<rparr>)
       (enumerate 1 (zip (navigations es) (verdicts es)))"

text \<open>
  The page calls of each attempt: those between a line \<open>Bumping ...\<close> and the line that
  ends it.
\<close>

fun until_verdict :: "event list \<Rightarrow> (page_call \<times> reply) list" where
  "until_verdict [] = []"
| "until_verdict (Called c r # es) = (c, r) # until_verdict es"
| "until_verdict (Notice (Bumped s t) # es) = []"
| "until_verdict (Notice (FailedToBump s t) # es) = []"
| "until_verdict (e # es) = until_verdict es"

fun attempts :: "event list \<Rightarrow> (page_call \<times> reply) list list" where
  "attempts [] = []"
| "attempts (Notice (Bumping s) # es) = until_verdict es # attempts es"
| "attempts (e # es) = attempts es"

definition threw :: "(page_call \<times> reply) list \<Rightarrow> bool" where
  "threw cs = list_ex (\<lambda>cr. is_throw (snd cr)) cs"

definition millis :: "(page_call \<times> reply) list \<Rightarrow> nat" where
  "millis cs = sum_list (map (\<lambda>cr. took (snd cr)) cs)"

text \<open>
  The calls \<open>cs\<close> are a run of the steps \<open>steps\<close>: they are its first calls, in order, none
  but the last threw, and either the last threw or every step was made.
\<close>

definition run_of :: "page_call list \<Rightarrow> (page_call \<times> reply) list \<Rightarrow> bool" where
  "run_of steps cs =
     (map fst cs = take (length cs) steps \<and> \<not> threw (butlast cs) \<and>
      (threw cs \<or> length cs = length steps))"

text \<open>
  Following the words of the specification, "rounded to whole seconds": the whole number of
  seconds nearest to a duration in milliseconds, a half going up.
\<close>

definition rounded_seconds :: "nat \<Rightarrow> int" where
  "rounded_seconds ms = int ((ms + 500) div 1000)"

section \<open>Sample inputs\<close>

definition joe :: world where
  "joe = \<lparr>prefs = \<lparr>username = Str ''joe'', emailAddress = Str ''joe@example.org'',
                      password = Str ''hunter2''\<rparr>,
          clock = 0, log = []\<rparr>"

definition every_15 :: "string \<Rightarrow> args" where
  "every_15 t = \<lparr>target = t, interval = Digits ''15''\<rparr>"

text \<open>
  A site with no listing; every call takes 700 ms, and a \<open>goto\<close> with no address throws
  at once.
\<close>

definition no_listing :: driver where
  "no_listing h c =
     (case c of
        Goto u \<Rightarrow> if u = Undefined then Throws 1 ''url: string value expected'' else Resolves 700 []
      | _ \<Rightarrow> Resolves 700 [])"

text \<open>A site with three listings, the second of which times out after 1999 ms.\<close>

definition three_listings :: driver where
  "three_listings h c =
     (case c of
        Evaluate \<Rightarrow> Resolves 10 [Str ''A'', Str ''B'', Str ''C'']
      | Goto u \<Rightarrow> if u = Str ''B'' then Throws 1999 ''timeout'' else Resolves 400 []
      | _ \<Rightarrow> Resolves 400 [])"

text \<open>A site whose pages stop loading once the browser is up: every \<open>goto\<close> throws.\<close>

definition offline :: driver where
  "offline h c = (case c of Goto u \<Rightarrow> Throws 30000 ''timeout'' | _ \<Rightarrow> Resolves 5 [])"

section \<open>Basic facts\<close>

lemma notify_sel [simp]:
  "prefs (notify n w) = prefs w" "clock (notify n w) = clock w"
  "log (notify n w) = log w @ [Notice n]"
  by (simp_all add: notify_def)

lemma enter_sel [simp]:
  "prefs (enter f w) = prefs w" "clock (enter f w) = clock w"
  "log (enter f w) = log w @ [Invoked f]"
  by (simp_all add: enter_def)

lemma called_simps [simp]:
  "called [] = []" "called ((c, r) # cs) = Called c r # called cs"
  "called (cs @ ds) = called cs @ called ds"
  by (simp_all add: called_def)

lemma threw_simps [simp]:
  "threw [] = False" "threw ((c, r) # cs) = (is_throw r \<or> threw cs)"
  by (simp_all add: threw_def)

lemma millis_simps [simp]:
  "millis [] = 0" "millis ((c, r) # cs) = took r + millis cs"
  by (simp_all add: millis_def)

lemma emitted_append [simp]: "log w' = log w @ evs \<Longrightarrow> emitted w w' = evs"
  by (simp add: emitted_def)

lemma page_invoke_sel:
  "prefs (snd (page_invoke drv c w)) = prefs w"
  "clock (snd (page_invoke drv c w)) = clock w + took (drv (page_calls (log w)) c)"
  "log (snd (page_invoke drv c w)) = log w @ [Called c (drv (page_calls (log w)) c)]"
  by (simp_all add: page_invoke_def Let_def split: reply.split)

lemma page_invoke_fst:
  "fst (page_invoke drv c w) =
     (case drv (page_calls (log w)) c of Resolves ms v \<Rightarrow> Fulfilled v | Throws ms e \<Rightarrow> Rejected e)"
  by (simp add: page_invoke_def Let_def split: reply.split)

lemma run_of_Nil [simp]: "run_of [] []"
  by (simp add: run_of_def)

lemma run_of_throw: "is_throw r \<Longrightarrow> run_of (c # cs) [(c, r)]"
  by (simp add: run_of_def)

lemma run_of_Cons: "\<not> is_throw r \<Longrightarrow> run_of cs ds \<Longrightarrow> run_of (c # cs) ((c, r) # ds)"
  by (cases ds) (auto simp: run_of_def)

lemma awaits_run:
  "\<exists>ds. log (snd (awaits drv cs w)) = log w @ called ds
      \<and> clock (snd (awaits drv cs w)) = clock w + millis ds
      \<and> prefs (snd (awaits drv cs w)) = prefs w
      \<and> run_of cs ds
      \<and> (case fst (awaits drv cs w) of
            Fulfilled u \<Rightarrow> \<not> threw ds
          | Rejected e \<Rightarrow> ds \<noteq> [] \<and> (\<exists>ms. snd (last ds) = Throws ms e))"
proof (induction cs arbitrary: w)
  case Nil
  show ?case by (rule exI [of _ "[]"]) simp
next
  case (Cons c cs)
  let ?r = "drv (page_calls (log w)) c"
  let ?w = "snd (page_invoke drv c w)"
  show ?case
  proof (cases ?r)
    case (Throws ms e)
    then have "awaits drv (c # cs) w = (Rejected e, ?w)"
      by (simp add: page_invoke_def Let_def)
    with Throws show ?thesis
      by (intro exI [of _ "[(c, ?r)]"]) (simp add: page_invoke_sel run_of_throw)
  next
    case (Resolves ms v)
    then have step: "awaits drv (c # cs) w = awaits drv cs ?w"
      by (simp add: page_invoke_def Let_def)
    from Cons.IH [of ?w] obtain ds where ds:
      "log (snd (awaits drv cs ?w)) = log ?w @ called ds"
      "clock (snd (awaits drv cs ?w)) = clock ?w + millis ds"
      "prefs (snd (awaits drv cs ?w)) = prefs ?w"
      "run_of cs ds"
      "case fst (awaits drv cs ?w) of
            Fulfilled u \<Rightarrow> \<not> threw ds
          | Rejected e \<Rightarrow> ds \<noteq> [] \<and> (\<exists>ms. snd (last ds) = Throws ms e)"
      by blast
    show ?thesis
    proof (intro exI [of _ "(c, ?r) # ds"] conjI)
      show "log (snd (awaits drv (c # cs) w)) = log w @ called ((c, ?r) # ds)"
        using ds(1) by (simp add: step page_invoke_sel del: awaits.simps)
      show "clock (snd (awaits drv (c # cs) w)) = clock w + millis ((c, ?r) # ds)"
        using ds(2) by (simp add: step page_invoke_sel del: awaits.simps)
      show "prefs (snd (awaits drv (c # cs) w)) = prefs w"
        using ds(3) by (simp add: step page_invoke_sel del: awaits.simps)
      show "run_of (c # cs) ((c, ?r) # ds)"
        using ds(4) Resolves by (simp add: run_of_Cons)
      show "case fst (awaits drv (c # cs) w) of
            Fulfilled u \<Rightarrow> \<not> threw ((c, ?r) # ds)
          | Rejected e \<Rightarrow> (c, ?r) # ds \<noteq> [] \<and> (\<exists>ms. snd (last ((c, ?r) # ds)) = Throws ms e)"
        using ds(5) Resolves by (auto simp: step simp del: awaits.simps split: completion.splits)
    qed
  qed
qed


lemma threw_last: "ds \<noteq> [] \<Longrightarrow> is_throw (snd (last ds)) \<Longrightarrow> threw ds"
  by (induction ds) (auto split: if_splits)

lemma awaits_fulfilled_iff:
  assumes "case fst (awaits drv cs w) of
            Fulfilled u \<Rightarrow> \<not> threw ds
          | Rejected e \<Rightarrow> ds \<noteq> [] \<and> (\<exists>ms. snd (last ds) = Throws ms e)"
  shows "(fst (awaits drv cs w) = Fulfilled ()) = (\<not> threw ds)"
proof (cases "fst (awaits drv cs w)")
  case (Fulfilled u)
  with assms show ?thesis by simp
next
  case (Rejected e)
  with assms have "ds \<noteq> []" "is_throw (snd (last ds))" by auto
  then have "threw ds" by (rule threw_last)
  with Rejected show ?thesis by simp
qed

lemma page_calls_append [simp]: "page_calls (xs @ ys) = page_calls xs @ page_calls ys"
  by (induction xs rule: page_calls.induct) simp_all

lemma stages_append [simp]: "stages (xs @ ys) = stages xs @ stages ys"
  by (induction xs rule: stages.induct) simp_all

lemma notices_append [simp]: "notices (xs @ ys) = notices xs @ notices ys"
  by (induction xs rule: notices.induct) simp_all

lemma verdicts_append [simp]: "verdicts (xs @ ys) = verdicts xs @ verdicts ys"
  by (induction xs rule: verdicts.induct) simp_all

lemma navigations_append [simp]: "navigations (xs @ ys) = navigations xs @ navigations ys"
  by (induction xs rule: navigations.induct) simp_all

lemma page_calls_called [simp]: "page_calls (called ds) = ds"
  by (induction ds) auto

lemma stages_called [simp]: "stages (called ds) = []"
  by (induction ds) auto

lemma notices_called [simp]: "notices (called ds) = []"
  by (induction ds) auto

lemma verdicts_called [simp]: "verdicts (called ds) = []"
  by (induction ds) auto

lemma attempts_called [simp]: "attempts (called ds @ es) = attempts es"
  by (induction ds) auto

lemma until_verdict_called [simp]: "until_verdict (called ds @ es) = ds @ until_verdict es"
  by (induction ds) auto

lemma navigations_called_no_goto:
  "\<forall>c \<in> set (map fst ds). \<forall>u. c \<noteq> Goto u \<Longrightarrow> navigations (called ds) = []"
proof (induction ds)
  case Nil
  show ?case by simp
next
  case (Cons d ds)
  obtain c r where d: "d = (c, r)" by (cases d)
  from Cons.prems d have "\<forall>u. c \<noteq> Goto u" by simp
  then have "navigations (Called c r # called ds) = navigations (called ds)"
    by (cases c) simp_all
  with Cons d show ?case by simp
qed

lemma run_of_nonempty: "run_of (c # cs) ds \<Longrightarrow> ds \<noteq> []"
  by (auto simp: run_of_def)

lemma navigations_bump_run:
  assumes "run_of (bump_steps u) ds"
  shows "navigations (called ds) = [u]"
proof -
  from assms have "ds \<noteq> []" by (simp add: bump_steps_def run_of_nonempty)
  then obtain c r ds' where ds: "ds = (c, r) # ds'" by (cases ds) auto
  from assms ds have c: "c = Goto u"
    and rest: "map fst ds' = take (length ds')
        [Click ''[href^='/trade/edit']'', WaitForNavigation,
         Click ''#rlg-addTradeForm input[type=submit]'', WaitForNavigation]"
    by (simp_all add: run_of_def bump_steps_def)
  have "set (map fst ds') \<subseteq> set [Click ''[href^='/trade/edit']'', WaitForNavigation,
         Click ''#rlg-addTradeForm input[type=submit]'', WaitForNavigation]"
    by (subst rest) (rule set_take_subset)
  then have "\<forall>c \<in> set (map fst ds'). \<forall>u. c \<noteq> Goto u" by auto
  then have "navigations (called ds') = []" by (rule navigations_called_no_goto)
  with ds c show ?thesis by simp
qed

lemma diff_seconds_later: "diff_seconds (b + m) b = int (m div 1000)"
  by (simp add: diff_seconds_def zdiv_int)


lemma bump_loop_Cons:
  "bump_loop drv a len k (u # rest) w =
     (let s = (if target a = ''oldest'' then Oldest else Trade (k + 1) len);
          w1 = snd (awaits drv (bump_steps u) (notify (Bumping s) w));
          t = diff_seconds (clock w1) (clock w)
      in bump_loop drv a len (k + 1) rest
           (notify (if fst (awaits drv (bump_steps u) (notify (Bumping s) w)) = Fulfilled ()
                    then Bumped s t else FailedToBump s t) w1))"
  by (simp add: Let_def split: prod.split completion.split)

lemma bump_loop_run:
  "\<exists>evs. log (bump_loop drv a len k urls w) = log w @ evs
     \<and> prefs (bump_loop drv a len k urls w) = prefs w
     \<and> navigations evs = urls
     \<and> stages evs = []
     \<and> list_all2 (\<lambda>u cs. run_of (bump_steps u) cs) urls (attempts evs)
     \<and> verdicts evs =
         map (\<lambda>cs. (if threw cs then FAILURE else SUCCESS, int (millis cs div 1000))) (attempts evs)
     \<and> page_calls evs = concat (attempts evs)"
proof (induction urls arbitrary: k w)
  case Nil
  show ?case by (rule exI [of _ "[]"]) simp
next
  case (Cons u rest)
  define s where "s = (if target a = ''oldest'' then Oldest else Trade (k + 1) len)"
  define w0 where "w0 = notify (Bumping s) w"
  define w1 where "w1 = snd (awaits drv (bump_steps u) w0)"
  obtain ds where ds:
    "log w1 = log w0 @ called ds"
    "clock w1 = clock w0 + millis ds"
    "prefs w1 = prefs w0"
    "run_of (bump_steps u) ds"
    "(fst (awaits drv (bump_steps u) w0) = Fulfilled ()) = (\<not> threw ds)"
    using awaits_run [of drv "bump_steps u" w0] awaits_fulfilled_iff [where drv = drv and cs = "bump_steps u" and w = w0]
    unfolding w1_def by blast
  define t where "t = int (millis ds div 1000)"
  define v where "v = (if threw ds then FailedToBump s t else Bumped s t)"
  define w2 where "w2 = notify v w1"
  have t: "diff_seconds (clock w1) (clock w) = t"
    by (simp add: ds(2) w0_def t_def diff_seconds_later)
  have step: "bump_loop drv a len k (u # rest) w = bump_loop drv a len (k + 1) rest w2"
    unfolding bump_loop_Cons Let_def s_def [symmetric] w0_def [symmetric] w1_def [symmetric]
      t ds(5) w2_def v_def
    by simp
  from Cons.IH [of "k + 1" w2] obtain evs where evs:
    "log (bump_loop drv a len (k + 1) rest w2) = log w2 @ evs"
    "prefs (bump_loop drv a len (k + 1) rest w2) = prefs w2"
    "navigations evs = rest"
    "stages evs = []"
    "list_all2 (\<lambda>u cs. run_of (bump_steps u) cs) rest (attempts evs)"
    "verdicts evs =
       map (\<lambda>cs. (if threw cs then FAILURE else SUCCESS, int (millis cs div 1000))) (attempts evs)"
    "page_calls evs = concat (attempts evs)"
    by blast
  let ?evs = "Notice (Bumping s) # called ds @ Notice v # evs"
  have uv: "until_verdict (called ds @ Notice v # evs) = ds"
    by (simp add: v_def)
  have at: "attempts ?evs = ds # attempts evs"
    using uv by (simp add: v_def)
  show ?case
  proof (intro exI [of _ ?evs] conjI)
    show "log (bump_loop drv a len k (u # rest) w) = log w @ ?evs"
      by (simp only: step evs(1)) (simp add: w2_def ds(1) w0_def)
    show "prefs (bump_loop drv a len k (u # rest) w) = prefs w"
      by (simp only: step evs(2)) (simp add: w2_def ds(3) w0_def)
    show "navigations ?evs = u # rest"
      using navigations_bump_run [OF ds(4)] evs(3) by (simp add: v_def)
    show "stages ?evs = []"
      using evs(4) by (simp add: v_def)
    show "list_all2 (\<lambda>u cs. run_of (bump_steps u) cs) (u # rest) (attempts ?evs)"
      using ds(4) evs(5) by (simp only: at list_all2_Cons)
    show "verdicts ?evs =
       map (\<lambda>cs. (if threw cs then FAILURE else SUCCESS, int (millis cs div 1000))) (attempts ?evs)"
      using evs(6) by (simp only: at) (simp add: v_def t_def)
    show "page_calls ?evs = concat (attempts ?evs)"
      using evs(7) by (simp only: at) (simp add: v_def)
  qed
qed

lemma bump_result_columns:
  fixes zs :: "(nat \<times> jsval \<times> outcome \<times> int) list"
  defines "f \<equiv> (\<lambda>(i, u, oc, t). \<lparr>index = i, url = u, outcome = oc, elapsedSeconds = t\<rparr>)"
  shows "map index (map f zs) = map fst zs"
    and "map url (map f zs) = map fst (map snd zs)"
    and "map outcome (map f zs) = map fst (map snd (map snd zs))"
    and "map elapsedSeconds (map f zs) = map snd (map snd (map snd zs))"
  by (simp_all add: f_def split_beta)

lemma cycle_report_columns:
  assumes "length (navigations es) = length (verdicts es)"
  shows "map index (cycle_report es) = [1..<Suc (length (navigations es))]"
    and "map url (cycle_report es) = navigations es"
    and "map outcome (cycle_report es) = map fst (verdicts es)"
    and "map elapsedSeconds (cycle_report es) = map snd (verdicts es)"
  unfolding cycle_report_def bump_result_columns
  using assms by (simp_all add: map_snd_enumerate)

lemma updateTrades_run:
  "\<exists>evs. log (snd (updateTrades drv a urls w)) = log w @ Invoked UpdateTrades # evs
     \<and> prefs (snd (updateTrades drv a urls w)) = prefs w
     \<and> navigations evs = urls
     \<and> stages evs = []
     \<and> list_all2 (\<lambda>u cs. run_of (bump_steps u) cs) urls (attempts evs)
     \<and> verdicts evs =
         map (\<lambda>cs. (if threw cs then FAILURE else SUCCESS, int (millis cs div 1000))) (attempts evs)
     \<and> page_calls evs = concat (attempts evs)"
proof -
  from bump_loop_run [of drv a "length urls" 0 urls "enter UpdateTrades w"]
  obtain evs where evs:
    "log (bump_loop drv a (length urls) 0 urls (enter UpdateTrades w)) = log (enter UpdateTrades w) @ evs"
    "prefs (bump_loop drv a (length urls) 0 urls (enter UpdateTrades w)) = prefs (enter UpdateTrades w)"
    "navigations evs = urls"
    "stages evs = []"
    "list_all2 (\<lambda>u cs. run_of (bump_steps u) cs) urls (attempts evs)"
    "verdicts evs =
         map (\<lambda>cs. (if threw cs then FAILURE else SUCCESS, int (millis cs div 1000))) (attempts evs)"
    "page_calls evs = concat (attempts evs)"
    by blast
  show ?thesis
    using evs by (intro exI [of _ evs]) (simp add: updateTrades_def)
qed

section \<open>The Update Executor\<close>

text \<open>
  Claim C1. Whatever the driver does, updateTrades is fulfilled; it goes to every address of
  its input, in the order of the input, also after an attempt that threw; and what the
  spinner reported has exactly one entry per address, in that order, numbered from 1, whose
  outcome is FAILURE exactly when a call of that attempt threw, and whose seconds are the
  time the calls of that attempt took.
\<close>

theorem updateTrades_isolates_failures:
  "let run = updateTrades drv a tradeUrls w;
       evs = emitted w (snd run);
       report = cycle_report evs
   in fst run = Fulfilled ()
      \<and> navigations evs = tradeUrls
      \<and> length report = length tradeUrls
      \<and> map url report = tradeUrls
      \<and> map index report = [1..<Suc (length tradeUrls)]
      \<and> map outcome report = map (\<lambda>cs. if threw cs then FAILURE else SUCCESS) (attempts evs)
      \<and> map elapsedSeconds report = map (\<lambda>cs. int (millis cs div 1000)) (attempts evs)"
proof -
  obtain evs where lg: "log (snd (updateTrades drv a tradeUrls w)) = log w @ Invoked UpdateTrades # evs"
    and nav: "navigations evs = tradeUrls"
    and runs: "list_all2 (\<lambda>u cs. run_of (bump_steps u) cs) tradeUrls (attempts evs)"
    and ver: "verdicts evs =
         map (\<lambda>cs. (if threw cs then FAILURE else SUCCESS, int (millis cs div 1000))) (attempts evs)"
    using updateTrades_run [of drv a tradeUrls w] by blast
  have em: "emitted w (snd (updateTrades drv a tradeUrls w)) = Invoked UpdateTrades # evs"
    using lg by (rule emitted_append)
  let ?es = "Invoked UpdateTrades # evs"
  have nav': "navigations ?es = tradeUrls" using nav by simp
  have att: "attempts ?es = attempts evs" by simp
  have ver': "verdicts ?es =
         map (\<lambda>cs. (if threw cs then FAILURE else SUCCESS, int (millis cs div 1000))) (attempts evs)"
    using ver by simp
  have len: "length (navigations ?es) = length (verdicts ?es)"
    using list_all2_lengthD [OF runs] by (simp only: nav' ver' length_map)
  have "length (cycle_report ?es) = length (map url (cycle_report ?es))" by simp
  also have "\<dots> = length tradeUrls"
    by (simp only: cycle_report_columns(2) [OF len] nav')
  finally have l: "length (cycle_report ?es) = length tradeUrls" .
  have u: "map url (cycle_report ?es) = tradeUrls"
    by (simp only: cycle_report_columns(2) [OF len] nav')
  have i: "map index (cycle_report ?es) = [1..<Suc (length tradeUrls)]"
    by (simp only: cycle_report_columns(1) [OF len] nav')
  have oc: "map outcome (cycle_report ?es) =
      map (\<lambda>cs. if threw cs then FAILURE else SUCCESS) (attempts ?es)"
    by (simp only: cycle_report_columns(3) [OF len] ver' att) (simp add: comp_def)
  have t: "map elapsedSeconds (cycle_report ?es) =
      map (\<lambda>cs. int (millis cs div 1000)) (attempts ?es)"
    by (simp only: cycle_report_columns(4) [OF len] ver' att) (simp add: comp_def)
  have f: "fst (updateTrades drv a tradeUrls w) = Fulfilled ()"
    by (simp add: updateTrades_def)
  show ?thesis
    unfolding Let_def em using f nav' l u i oc t by blast
qed

text \<open>
  Claim C8, as amended. The calls of the attempt on an address are a run of the five steps
  for it: the first of them is the \<open>goto\<close>, and they end with the navigation after the
  submit or with the call that threw. The seconds reported for the attempt are the
  milliseconds those calls took, from the start of the first to the end of the last,
  truncated to whole seconds: the fraction is dropped, as \<open>diff\<close> of moment does, not
  rounded.
\<close>

theorem updateTrades_elapsed_seconds:
  "let evs = emitted w (snd (updateTrades drv a tradeUrls w))
   in list_all2 (\<lambda>tradeUrl cs. run_of (bump_steps tradeUrl) cs) tradeUrls (attempts evs)
      \<and> map elapsedSeconds (cycle_report evs) = map (\<lambda>cs. int (millis cs div 1000)) (attempts evs)"
proof -
  obtain evs where lg: "log (snd (updateTrades drv a tradeUrls w)) = log w @ Invoked UpdateTrades # evs"
    and nav: "navigations evs = tradeUrls"
    and runs: "list_all2 (\<lambda>u cs. run_of (bump_steps u) cs) tradeUrls (attempts evs)"
    and ver: "verdicts evs =
         map (\<lambda>cs. (if threw cs then FAILURE else SUCCESS, int (millis cs div 1000))) (attempts evs)"
    using updateTrades_run [of drv a tradeUrls w] by blast
  have em: "emitted w (snd (updateTrades drv a tradeUrls w)) = Invoked UpdateTrades # evs"
    using lg by (rule emitted_append)
  let ?es = "Invoked UpdateTrades # evs"
  have nav': "navigations ?es = tradeUrls" using nav by simp
  have att: "attempts ?es = attempts evs" by simp
  have ver': "verdicts ?es =
         map (\<lambda>cs. (if threw cs then FAILURE else SUCCESS, int (millis cs div 1000))) (attempts evs)"
    using ver by simp
  have len: "length (navigations ?es) = length (verdicts ?es)"
    using list_all2_lengthD [OF runs] by (simp only: nav' ver' length_map)
  have t: "map elapsedSeconds (cycle_report ?es) = map (\<lambda>cs. int (millis cs div 1000)) (attempts ?es)"
    by (simp only: cycle_report_columns(4) [OF len] ver' att) (simp add: comp_def)
  show ?thesis
    unfolding Let_def em using runs t by (simp only: att)
qed

theorem updateTrades_isolates_failures_witness:
  "map url (cycle_report (emitted joe (snd (updateTrades three_listings (every_15 ''all'')
      [Str ''A'', Str ''B'', Str ''C''] joe)))) = [Str ''A'', Str ''B'', Str ''C'']
   \<and> map outcome (cycle_report (emitted joe (snd (updateTrades three_listings (every_15 ''all'')
      [Str ''A'', Str ''B'', Str ''C''] joe)))) = [SUCCESS, FAILURE, SUCCESS]"
  using updateTrades_isolates_failures
    [of three_listings "every_15 ''all''" "[Str ''A'', Str ''B'', Str ''C'']" joe]
  by (simp add: updateTrades_def cycle_report_def three_listings_def every_15_def joe_def
      page_invoke_def Let_def bump_steps_def diff_seconds_def enter_def notify_def emitted_def)

theorem updateTrades_elapsed_seconds_witness:
  "map elapsedSeconds (cycle_report (emitted joe (snd (updateTrades three_listings (every_15 ''all'')
      [Str ''A'', Str ''B'', Str ''C''] joe)))) = [2, 1, 2]
   \<and> map millis (attempts (emitted joe (snd (updateTrades three_listings (every_15 ''all'')
      [Str ''A'', Str ''B'', Str ''C''] joe)))) = [2000, 1999, 2000]"
  using updateTrades_elapsed_seconds
    [of joe three_listings "every_15 ''all''" "[Str ''A'', Str ''B'', Str ''C'']"]
  by (simp add: updateTrades_def cycle_report_def three_listings_def every_15_def joe_def
      page_invoke_def Let_def bump_steps_def diff_seconds_def enter_def notify_def emitted_def)

text \<open>
  Claim C8 as stated fails: the one attempt of this run takes 1999 milliseconds, which
  rounded to whole seconds is 2, and the seconds reported are 1.
\<close>

theorem elapsed_seconds_not_rounded:
  "map millis (attempts (emitted joe (snd (updateTrades three_listings (every_15 ''all'')
      [Str ''B''] joe)))) = [1999]
   \<and> map elapsedSeconds (cycle_report (emitted joe (snd (updateTrades three_listings
      (every_15 ''all'') [Str ''B''] joe)))) = [1]
   \<and> rounded_seconds 1999 = 2"
  by (simp add: updateTrades_def cycle_report_def three_listings_def every_15_def joe_def
      rounded_seconds_def
      page_invoke_def Let_def bump_steps_def diff_seconds_def enter_def notify_def emitted_def)

section \<open>Listing Discovery\<close>

lemma page_calls_snoc_other [simp]:
  "page_calls (es @ [Notice n]) = page_calls es" "page_calls (es @ [Invoked f]) = page_calls es"
  by simp_all

lemma scrapeTrades_resolves:
  assumes "drv (page_calls (log w)) (Goto (trades_page (prefs w))) = Resolves ms v"
    and "drv (page_calls (log w) @ [(Goto (trades_page (prefs w)), Resolves ms v)]) Evaluate
           = Resolves ms' L"
  shows "fst (scrapeTrades drv a w) =
           Fulfilled (if target a = ''oldest'' then [js_index L (int (length L) - 1)] else L)"
  using assms by (simp add: scrapeTrades_def page_invoke_def Let_def)

text \<open>
  Claim C3. When the page of the user's trades loads and the scrape yields a list \<open>L\<close> that
  is not empty, scrapeTrades with target \<open>oldest\<close> is fulfilled with the one-element list of
  the last element of \<open>L\<close>.
\<close>

theorem scrapeTrades_oldest:
  assumes "drv (page_calls (log w)) (Goto (trades_page (prefs w))) = Resolves ms v"
    and "drv (page_calls (log w) @ [(Goto (trades_page (prefs w)), Resolves ms v)]) Evaluate
           = Resolves ms' L"
    and "L \<noteq> []"
    and "target a = ''oldest''"
  shows "fst (scrapeTrades drv a w) = Fulfilled [last L]"
proof -
  from \<open>L \<noteq> []\<close> have "js_index L (int (length L) - 1) = last L"
    by (cases L rule: rev_cases) (auto simp: js_index_def nth_append)
  with scrapeTrades_resolves [OF assms(1,2), of a] assms(4) show ?thesis by simp
qed

theorem scrapeTrades_oldest_witness:
  "fst (scrapeTrades three_listings (every_15 ''oldest'') joe) = Fulfilled [Str ''C'']"
  using scrapeTrades_oldest [of three_listings joe 400 "[]" 10 "[Str ''A'', Str ''B'', Str ''C'']"
      "every_15 ''oldest''"]
  by (simp add: three_listings_def every_15_def joe_def trades_page_def)

text \<open>
  Claim C4. When the page of the user's trades loads and the scrape yields a list \<open>L\<close>,
  scrapeTrades with target \<open>all\<close> is fulfilled with \<open>L\<close> itself.
\<close>

theorem scrapeTrades_all:
  assumes "drv (page_calls (log w)) (Goto (trades_page (prefs w))) = Resolves ms v"
    and "drv (page_calls (log w) @ [(Goto (trades_page (prefs w)), Resolves ms v)]) Evaluate
           = Resolves ms' L"
    and "target a = ''all''"
  shows "fst (scrapeTrades drv a w) = Fulfilled L"
  using scrapeTrades_resolves [OF assms(1,2), of a] assms(3) by simp

theorem scrapeTrades_all_witness:
  "fst (scrapeTrades three_listings (every_15 ''all'') joe)
     = Fulfilled [Str ''A'', Str ''B'', Str ''C'']"
  using scrapeTrades_all [of three_listings joe 400 "[]" 10 "[Str ''A'', Str ''B'', Str ''C'']"
      "every_15 ''all''"]
  by (simp add: three_listings_def every_15_def joe_def trades_page_def)

section \<open>The login command\<close>

text \<open>
  Claim C9. When the prompt ends in an error, setLogin leaves the preferences as they were
  and says that the login was aborted; when it ends with the three strings, the preferences
  hold exactly these.
\<close>

theorem setLogin_atomic:
  "prefs (setLogin (PromptError e) w) = prefs w
   \<and> notices (emitted w (setLogin (PromptError e) w)) = [Blank, PleaseEnter, LoginAborted]
   \<and> prefs (setLogin (Entered u m p) w) = \<lparr>username = Str u, emailAddress = Str m, password = Str p\<rparr>"
  by (simp add: setLogin_def Let_def emitted_def)

section \<open>No listing\<close>

text \<open>
  Claim C2, on the code. With target \<open>oldest\<close> and no listing on the page, scrapeTrades is
  fulfilled with the one-element list \<open>[undefined]\<close>, not with the empty list, and
  updateTrades then goes to \<open>undefined\<close> and reports a failure.
\<close>

theorem scrapeTrades_oldest_of_none:
  "fst (scrapeTrades no_listing (every_15 ''oldest'') joe) = Fulfilled [Undefined]
   \<and> navigations (emitted (snd (scrapeTrades no_listing (every_15 ''oldest'') joe))
        (snd (andThen (scrapeTrades no_listing (every_15 ''oldest'') joe)
                (updateTrades no_listing (every_15 ''oldest''))))) = [Undefined]
   \<and> verdicts (emitted (snd (scrapeTrades no_listing (every_15 ''oldest'') joe))
        (snd (andThen (scrapeTrades no_listing (every_15 ''oldest'') joe)
                (updateTrades no_listing (every_15 ''oldest''))))) = [(FAILURE, 0)]"
  by (simp add: scrapeTrades_def updateTrades_def andThen_def js_index_def trades_page_def
      no_listing_def every_15_def joe_def
      page_invoke_def Let_def bump_steps_def diff_seconds_def enter_def notify_def emitted_def)

section \<open>The preferences are only read\<close>

lemma awaits_prefs [simp]: "prefs (snd (awaits drv cs w)) = prefs w"
  using awaits_run [of drv cs w] by blast

lemma awaits_prefsD: "awaits drv cs w = (r, w') \<Longrightarrow> prefs w' = prefs w"
  using awaits_prefs [of drv cs w] by simp

lemma page_invoke_prefsD: "page_invoke drv c w = (r, w') \<Longrightarrow> prefs w' = prefs w"
  using page_invoke_sel(1) [of drv c w] by simp

lemma boot_prefs [simp]: "prefs (snd (boot drv a w)) = prefs w"
  by (auto simp: boot_def simp del: awaits.simps split: prod.split completion.split
      dest: awaits_prefsD)

lemma login_prefs [simp]: "prefs (snd (login drv a w)) = prefs w"
  by (auto simp: login_def simp del: awaits.simps split: prod.split completion.split
      dest: awaits_prefsD)

lemma scrapeTrades_prefs [simp]: "prefs (snd (scrapeTrades drv a w)) = prefs w"
  by (auto simp: scrapeTrades_def split: prod.split completion.split dest!: page_invoke_prefsD)

lemma updateTrades_prefs [simp]: "prefs (snd (updateTrades drv a urls w)) = prefs w"
  using updateTrades_run [of drv a urls w] by blast

lemma set_timeout_sel [simp]:
  "prefs (set_timeout a w) = prefs w"
  "log (set_timeout a w) =
     log w @ [Notice (RunAgainAt (clock w) (interval a)), Timer (timer_delay a)]"
  by (simp_all add: set_timeout_def Let_def)

lemma timer_fires_sel [simp]:
  "prefs (timer_fires a w) = prefs w"
  "log (timer_fires a w) = log w @ [Waited (effective_delay (timer_delay a))]"
  "clock (timer_fires a w) = clock w + effective_delay (timer_delay a)"
  by (simp_all add: timer_fires_def Let_def)

lemma andThen_prefs:
  assumes "prefs (snd p) = x" and "\<And>v w. prefs (snd (f v w)) = prefs w"
  shows "prefs (snd (andThen p f)) = x"
  using assms by (cases p) (auto simp: andThen_def split: completion.split)

lemma scheduleUpdateTrades_prefs [simp]: "prefs (snd (scheduleUpdateTrades n drv a w)) = prefs w"
proof (induction n arbitrary: w)
  case 0
  show ?case by simp
next
  case (Suc n)
  show ?case
    unfolding scheduleUpdateTrades.simps
    by (intro andThen_prefs) (simp_all add: Suc.IH)
qed

lemma bump_action_prefs: "prefs (snd (bump_action n drv a w)) = prefs w"
  unfolding bump_action_def by (intro andThen_prefs) simp_all

text \<open>
  Claim C10. login, scrapeTrades, updateTrades and scheduleUpdateTrades, and the whole
  action of the bump command however long it runs, leave the preferences object exactly
  as they found it.
\<close>

theorem bump_never_writes_prefs:
  "prefs (snd (login drv a w)) = prefs w
   \<and> prefs (snd (scrapeTrades drv a w)) = prefs w
   \<and> prefs (snd (updateTrades drv a tradeUrls w)) = prefs w
   \<and> prefs (snd (scheduleUpdateTrades n drv a w)) = prefs w
   \<and> prefs (snd (bump_action n drv a w)) = prefs w"
  by (simp add: bump_action_prefs)

section \<open>The Session Manager\<close>

lemma login_run:
  "\<exists>ds. log (snd (login drv a w)) =
          log w @ Invoked Login # Notice (LoggingIn (emailAddress (prefs w))) # called ds
            @ (if threw ds then [] else [Notice (LoggedIn (emailAddress (prefs w)))])
     \<and> run_of (login_steps (prefs w)) ds
     \<and> (fst (login drv a w) = Fulfilled ()) = (\<not> threw ds)
     \<and> (\<forall>e. fst (login drv a w) = Rejected e \<longrightarrow>
            ds \<noteq> [] \<and> (\<exists>ms. snd (last ds) = Throws ms e))"
proof -
  define w0 where "w0 = notify (LoggingIn (emailAddress (prefs w))) (enter Login w)"
  define w1 where "w1 = snd (awaits drv (login_steps (prefs w)) w0)"
  obtain ds where ds:
    "log w1 = log w0 @ called ds"
    "prefs w1 = prefs w0"
    "run_of (login_steps (prefs w)) ds"
    "case fst (awaits drv (login_steps (prefs w)) w0) of
            Fulfilled u \<Rightarrow> \<not> threw ds
          | Rejected e \<Rightarrow> ds \<noteq> [] \<and> (\<exists>ms. snd (last ds) = Throws ms e)"
    using awaits_run [of drv "login_steps (prefs w)" w0] unfolding w1_def by blast
  show ?thesis
  proof (cases "fst (awaits drv (login_steps (prefs w)) w0)")
    case (Fulfilled x)
    then have aw: "awaits drv (login_steps (prefs w)) w0 = (Fulfilled x, w1)"
      by (simp add: w1_def prod_eq_iff)
    from Fulfilled ds(4) have nt: "\<not> threw ds" by simp
    have lg: "login drv a w = (Fulfilled (), notify (LoggedIn (emailAddress (prefs w1))) w1)"
      using aw by (simp add: login_def w0_def)
    show ?thesis
      using nt ds(1,2,3) by (intro exI [of _ ds]) (simp add: lg w0_def)
  next
    case (Rejected e)
    then have aw: "awaits drv (login_steps (prefs w)) w0 = (Rejected e, w1)"
      by (simp add: w1_def prod_eq_iff)
    from Rejected ds(4) have last: "ds \<noteq> []" "\<exists>ms. snd (last ds) = Throws ms e" by auto
    then have "is_throw (snd (last ds))" by auto
    with last(1) have t: "threw ds" by (rule threw_last)
    have lg: "login drv a w = (Rejected e, w1)"
      using aw by (simp add: login_def w0_def)
    show ?thesis
      using t last ds(1,3) by (intro exI [of _ ds]) (simp add: lg w0_def)
  qed
qed

lemma bump_action_login_rejected:
  assumes "boot drv a w0 = (Fulfilled (), w)" and "fst (login drv a w) = Rejected e"
  shows "bump_action n drv a w0 = login drv a w"
proof -
  from assms(2) obtain w' where "login drv a w = (Rejected e, w')"
    by (cases "login drv a w") auto
  then show ?thesis
    using assms(1) by (simp add: bump_action_def andThen_def)
qed

text \<open>
  Claim C7. The calls login makes are a run of its seven steps: each at most once, in order,
  ending with the first that throws. login is fulfilled exactly when none of them threw,
  whatever the pages showed. When it is rejected, the error is the one its last call threw,
  and the action of the bump command ends there, rejected with that error, in the state
  login left: neither scrapeTrades nor any later stage runs.
\<close>

theorem login_failure_ends_the_run:
  "let run = login drv a w; cs = page_calls (emitted w (snd run))
   in run_of (login_steps (prefs w)) cs
      \<and> (fst run = Fulfilled ()) = (\<not> threw cs)
      \<and> (\<forall>e. fst run = Rejected e \<longrightarrow>
            cs \<noteq> [] \<and> (\<exists>ms. snd (last cs) = Throws ms e)
            \<and> (\<forall>n w0. boot drv a w0 = (Fulfilled (), w) \<longrightarrow> bump_action n drv a w0 = run))"
proof -
  obtain ds where ds:
    "log (snd (login drv a w)) =
          log w @ Invoked Login # Notice (LoggingIn (emailAddress (prefs w))) # called ds
            @ (if threw ds then [] else [Notice (LoggedIn (emailAddress (prefs w)))])"
    "run_of (login_steps (prefs w)) ds"
    "(fst (login drv a w) = Fulfilled ()) = (\<not> threw ds)"
    "\<forall>e. fst (login drv a w) = Rejected e \<longrightarrow>
            ds \<noteq> [] \<and> (\<exists>ms. snd (last ds) = Throws ms e)"
    using login_run [of drv a w] by blast
  have "page_calls (emitted w (snd (login drv a w))) = ds"
    by (simp add: emitted_append [OF ds(1)])
  then show ?thesis
    unfolding Let_def using ds(2,3,4) bump_action_login_rejected [of drv a _ w] by auto
qed

theorem login_failure_ends_the_run_witness:
  "fst (login offline (every_15 ''all'') (snd (boot offline (every_15 ''all'') joe)))
     = Rejected ''timeout''
   \<and> bump_action 3 offline (every_15 ''all'') joe
     = login offline (every_15 ''all'') (snd (boot offline (every_15 ''all'') joe))
   \<and> stages (log (snd (bump_action 3 offline (every_15 ''all'') joe)))
     = [Invoked Boot, Invoked Login]"
proof -
  let ?a = "every_15 ''all''"
  let ?w = "snd (boot offline ?a joe)"
  have b: "boot offline ?a joe = (Fulfilled (), ?w)"
    by (simp add: boot_def page_invoke_def offline_def Let_def)
  have r: "fst (login offline ?a ?w) = Rejected ''timeout''"
    by (simp add: login_def login_steps_def boot_def page_invoke_def offline_def Let_def)
  from login_failure_ends_the_run [of offline ?a ?w] r b
  have e: "bump_action 3 offline ?a joe = login offline ?a ?w"
    unfolding Let_def by blast
  have s: "stages (log (snd (login offline ?a ?w))) = [Invoked Boot, Invoked Login]"
    by (simp add: login_def login_steps_def boot_def page_invoke_def offline_def Let_def
        joe_def every_15_def enter_def notify_def)
  show ?thesis using r e s by simp
qed

section \<open>The interval argument\<close>









section \<open>The Scheduler\<close>

lemma scrapeTrades_run:
  "\<exists>evs. log (snd (scrapeTrades drv a w)) = log w @ Invoked ScrapeTrades # evs
     \<and> stages evs = []"
  by (simp add: scrapeTrades_def page_invoke_def Let_def split: reply.split)

lemma scrapeTrades_fulfilled:
  assumes "\<forall>h. \<not> is_throw (drv h (Goto (trades_page (prefs w)))) \<and> \<not> is_throw (drv h Evaluate)"
  shows "\<exists>urls. fst (scrapeTrades drv a w) = Fulfilled urls"
proof -
  let ?h1 = "page_calls (log (notify Finding (enter ScrapeTrades w)))"
  let ?g = "Goto (trades_page (prefs w))"
  from assms obtain ms v where r1: "drv ?h1 ?g = Resolves ms v"
    by (cases "drv ?h1 ?g") (auto dest: spec [of _ ?h1])
  let ?h2 = "?h1 @ [(?g, Resolves ms v)]"
  from assms obtain ms' L where r2: "drv ?h2 Evaluate = Resolves ms' L"
    by (cases "drv ?h2 Evaluate") (auto dest: spec [of _ ?h2])
  from r1 r2 show ?thesis
    by (simp add: scrapeTrades_def page_invoke_def Let_def)
qed

lemma sched_course:
  "\<exists>k evs. log (snd (scheduleUpdateTrades n drv a w)) = log w @ evs
     \<and> stages evs =
         [Invoked ScheduleUpdateTrades, Timer (timer_delay a)]
         @ concat (replicate k
             [Waited (effective_delay (timer_delay a)), Invoked ScrapeTrades, Invoked UpdateTrades,
              Invoked ScheduleUpdateTrades, Timer (timer_delay a)])
         @ (case fst (scheduleUpdateTrades n drv a w) of
              Fulfilled u \<Rightarrow> []
            | Rejected e \<Rightarrow> [Waited (effective_delay (timer_delay a)), Invoked ScrapeTrades])
     \<and> (case fst (scheduleUpdateTrades n drv a w) of
           Fulfilled u \<Rightarrow> k = n | Rejected e \<Rightarrow> k < n)"
proof (induction n arbitrary: w)
  case 0
  show ?case
    by (intro exI [of _ 0]) simp
next
  case (Suc n)
  define d where "d = timer_delay a"
  define ms where "ms = effective_delay (timer_delay a)"
  define w1 where "w1 = timer_fires a (set_timeout a (enter ScheduleUpdateTrades w))"
  let ?e1 = "[Invoked ScheduleUpdateTrades, Notice (RunAgainAt (clock w) (interval a)), Timer d,
      Waited ms]"
  have l1: "log w1 = log w @ ?e1"
    by (simp add: w1_def d_def ms_def)
  define w2 where "w2 = snd (scrapeTrades drv a w1)"
  obtain e2 where e2: "log w2 = log w1 @ Invoked ScrapeTrades # e2" "stages e2 = []"
    using scrapeTrades_run [of drv a w1] unfolding w2_def by blast
  have unf: "scheduleUpdateTrades (Suc n) drv a w =
      andThen (andThen (scrapeTrades drv a w1) (updateTrades drv a))
        (\<lambda>u. scheduleUpdateTrades n drv a)"
    by (simp add: w1_def)
  show ?case
  proof (cases "fst (scrapeTrades drv a w1)")
    case (Rejected e)
    then have sc: "scrapeTrades drv a w1 = (Rejected e, w2)"
      by (simp add: w2_def prod_eq_iff)
    have r: "scheduleUpdateTrades (Suc n) drv a w = (Rejected e, w2)"
      by (simp only: unf sc) (simp add: andThen_def)
    show ?thesis
      by (intro exI [of _ 0] exI [of _ "?e1 @ Invoked ScrapeTrades # e2"])
        (simp only: r, simp add: e2 l1 d_def ms_def)
  next
    case (Fulfilled urls)
    then have sc: "scrapeTrades drv a w1 = (Fulfilled urls, w2)"
      by (simp add: w2_def prod_eq_iff)
    define w3 where "w3 = snd (updateTrades drv a urls w2)"
    have up: "updateTrades drv a urls w2 = (Fulfilled (), w3)"
      by (simp add: w3_def updateTrades_def)
    obtain e3 where e3: "log w3 = log w2 @ Invoked UpdateTrades # e3" "stages e3 = []"
      using updateTrades_run [of drv a urls w2] unfolding w3_def by blast
    have r: "scheduleUpdateTrades (Suc n) drv a w = scheduleUpdateTrades n drv a w3"
      by (simp only: unf sc) (simp add: andThen_def up)
    from Suc.IH [of w3] obtain k evs where ih:
      "log (snd (scheduleUpdateTrades n drv a w3)) = log w3 @ evs"
      "stages evs =
         [Invoked ScheduleUpdateTrades, Timer d]
         @ concat (replicate k
             [Waited ms, Invoked ScrapeTrades, Invoked UpdateTrades,
              Invoked ScheduleUpdateTrades, Timer d])
         @ (case fst (scheduleUpdateTrades n drv a w3) of
              Fulfilled u \<Rightarrow> [] | Rejected e \<Rightarrow> [Waited ms, Invoked ScrapeTrades])"
      "case fst (scheduleUpdateTrades n drv a w3) of
           Fulfilled u \<Rightarrow> k = n | Rejected e \<Rightarrow> k < n"
      unfolding d_def ms_def by blast
    let ?evs = "?e1 @ Invoked ScrapeTrades # e2 @ Invoked UpdateTrades # e3 @ evs"
    have a1: "log (snd (scheduleUpdateTrades (Suc n) drv a w)) = log w @ ?evs"
      by (simp only: r ih(1) e3(1) e2(1) l1) simp
    have a2: "stages ?evs =
         [Invoked ScheduleUpdateTrades, Timer d]
         @ concat (replicate (Suc k)
             [Waited ms, Invoked ScrapeTrades, Invoked UpdateTrades,
              Invoked ScheduleUpdateTrades, Timer d])
         @ (case fst (scheduleUpdateTrades (Suc n) drv a w) of
              Fulfilled u \<Rightarrow> [] | Rejected e \<Rightarrow> [Waited ms, Invoked ScrapeTrades])"
      by (simp only: r) (simp add: e2(2) e3(2) ih(2))
    have a3: "case fst (scheduleUpdateTrades (Suc n) drv a w) of
           Fulfilled u \<Rightarrow> Suc k = Suc n | Rejected e \<Rightarrow> Suc k < Suc n"
      using ih(3) by (simp only: r) (simp split: completion.splits)
    show ?thesis
      using a1 a2 a3 unfolding d_def ms_def by blast
  qed
qed

lemma sched_fulfilled:
  assumes "\<forall>h. \<not> is_throw (drv h (Goto (trades_page p))) \<and> \<not> is_throw (drv h Evaluate)"
    and "prefs w = p"
  shows "fst (scheduleUpdateTrades n drv a w) = Fulfilled ()"
  using assms(2)
proof (induction n arbitrary: w)
  case 0
  show ?case by simp
next
  case (Suc n)
  define w1 where "w1 = timer_fires a (set_timeout a (enter ScheduleUpdateTrades w))"
  have p1: "prefs w1 = p" using Suc.prems by (simp add: w1_def)
  with assms(1) obtain urls where "fst (scrapeTrades drv a w1) = Fulfilled urls"
    using scrapeTrades_fulfilled [of drv w1 a] by auto
  then have sc: "scrapeTrades drv a w1 = (Fulfilled urls, snd (scrapeTrades drv a w1))"
    by (simp add: prod_eq_iff)
  define w3 where "w3 = snd (updateTrades drv a urls (snd (scrapeTrades drv a w1)))"
  have up: "updateTrades drv a urls (snd (scrapeTrades drv a w1)) = (Fulfilled (), w3)"
    by (simp add: w3_def updateTrades_def)
  have p3: "prefs w3 = p" using p1 by (simp add: w3_def)
  have "scheduleUpdateTrades (Suc n) drv a w =
      andThen (andThen (scrapeTrades drv a w1) (updateTrades drv a))
        (\<lambda>u. scheduleUpdateTrades n drv a)"
    by (simp add: w1_def)
  also have "andThen (scrapeTrades drv a w1) (updateTrades drv a) = (Fulfilled (), w3)"
    by (subst sc) (simp add: andThen_def up)
  finally have "scheduleUpdateTrades (Suc n) drv a w = scheduleUpdateTrades n drv a w3"
    by (simp add: andThen_def)
  with Suc.IH [OF p3] show ?case by simp
qed

lemma timer_delay_in_range:
  assumes "1 \<le> minutes_of (interval a)" and "minutes_of (interval a) \<le> 35791"
  shows "timer_delay a = Exact (60000 * minutes_of (interval a))"
    and "effective_delay (timer_delay a) = 60000 * minutes_of (interval a)"
proof -
  from assms(2) have "minutes_of (interval a) \<le> 2 ^ 53" by simp
  moreover from assms(2) have "60000 * minutes_of (interval a) \<le> 2 ^ 53" by simp
  ultimately show d: "timer_delay a = Exact (60000 * minutes_of (interval a))"
    by (simp add: timer_delay_def to_number_def exact_def)
  from assms show "effective_delay (timer_delay a) = 60000 * minutes_of (interval a)"
    by (simp add: d)
qed

lemma set_concat_replicate: "set (concat (replicate k xs)) \<subseteq> set xs"
  by (induction k) auto

lemma sched_no_login:
  "\<exists>evs. log (snd (scheduleUpdateTrades n drv a w)) = log w @ evs
     \<and> Invoked Login \<notin> set (stages evs)"
proof -
  obtain k evs where ke:
    "log (snd (scheduleUpdateTrades n drv a w)) = log w @ evs"
    "stages evs =
         [Invoked ScheduleUpdateTrades, Timer (timer_delay a)]
         @ concat (replicate k
             [Waited (effective_delay (timer_delay a)), Invoked ScrapeTrades, Invoked UpdateTrades,
              Invoked ScheduleUpdateTrades, Timer (timer_delay a)])
         @ (case fst (scheduleUpdateTrades n drv a w) of
              Fulfilled u \<Rightarrow> []
            | Rejected e \<Rightarrow> [Waited (effective_delay (timer_delay a)), Invoked ScrapeTrades])"
    using sched_course [of n drv a w] by blast
  have "Invoked Login \<notin> set (stages evs)"
    using set_concat_replicate [of k "[Waited (effective_delay (timer_delay a)),
        Invoked ScrapeTrades, Invoked UpdateTrades, Invoked ScheduleUpdateTrades,
        Timer (timer_delay a)]"]
    by (auto simp: ke(2) split: completion.splits)
  with ke(1) show ?thesis by blast
qed

lemma andThen_no_login:
  assumes "log (snd p) = log w @ e1"
    and "\<And>v w'. \<exists>e. log (snd (f v w')) = log w' @ e \<and> Invoked Login \<notin> set (stages e)"
  shows "\<exists>e2. log (snd (andThen p f)) = log w @ e1 @ e2 \<and> Invoked Login \<notin> set (stages e2)"
proof (cases p)
  case (Pair r w')
  show ?thesis
  proof (cases r)
    case (Rejected e)
    with Pair assms(1) show ?thesis
      by (intro exI [of _ "[]"]) (simp add: andThen_def)
  next
    case (Fulfilled v)
    from assms(2) [of v w'] obtain e where
      "log (snd (f v w')) = log w' @ e" "Invoked Login \<notin> set (stages e)" by blast
    with Pair Fulfilled assms(1) show ?thesis
      by (intro exI [of _ e]) (simp add: andThen_def)
  qed
qed

lemma boot_run:
  "\<exists>evs. log (snd (boot drv a w)) = log w @ Invoked Boot # evs \<and> stages evs = []"
proof -
  obtain ds where ds:
    "log (snd (awaits drv [Launch, NewPage] (notify Banner (enter Boot w))))
       = log (notify Banner (enter Boot w)) @ called ds"
    using awaits_run [of drv "[Launch, NewPage]" "notify Banner (enter Boot w)"] by blast
  show ?thesis
  proof (cases "awaits drv [Launch, NewPage] (notify Banner (enter Boot w))")
    case (Pair r w1)
    with ds have "log w1 = log w @ Invoked Boot # Notice Banner # called ds" by simp
    with Pair show ?thesis
      by (cases r) (simp_all add: boot_def del: awaits.simps)
  qed
qed

lemma after_login_no_login:
  assumes "log (snd p) = log w @ e1"
  shows "\<exists>e2. log (snd (andThen (andThen (andThen p (\<lambda>u. scrapeTrades drv a))
              (updateTrades drv a)) (\<lambda>u. scheduleUpdateTrades n drv a))) = log w @ e1 @ e2
          \<and> Invoked Login \<notin> set (stages e2)"
proof -
  have sc: "\<And>v w'. \<exists>e. log (snd (scrapeTrades drv a w')) = log w' @ e
      \<and> Invoked Login \<notin> set (stages e)"
  proof -
    fix w'
    obtain evs where "log (snd (scrapeTrades drv a w')) = log w' @ Invoked ScrapeTrades # evs"
      "stages evs = []"
      using scrapeTrades_run [of drv a w'] by blast
    then show "\<exists>e. log (snd (scrapeTrades drv a w')) = log w' @ e
      \<and> Invoked Login \<notin> set (stages e)"
      by (intro exI [of _ "Invoked ScrapeTrades # evs"]) simp
  qed
  have up: "\<And>v w'. \<exists>e. log (snd (updateTrades drv a v w')) = log w' @ e
      \<and> Invoked Login \<notin> set (stages e)"
  proof -
    fix v w'
    obtain evs where "log (snd (updateTrades drv a v w')) = log w' @ Invoked UpdateTrades # evs"
      "stages evs = []"
      using updateTrades_run [of drv a v w'] by blast
    then show "\<exists>e. log (snd (updateTrades drv a v w')) = log w' @ e
      \<and> Invoked Login \<notin> set (stages e)"
      by (intro exI [of _ "Invoked UpdateTrades # evs"]) simp
  qed
  have sd: "\<And>v w'. \<exists>e. log (snd (scheduleUpdateTrades n drv a w')) = log w' @ e
      \<and> Invoked Login \<notin> set (stages e)"
    by (rule sched_no_login)
  from andThen_no_login [OF assms, of "\<lambda>u. scrapeTrades drv a"] sc
  obtain e2 where e2:
    "log (snd (andThen p (\<lambda>u. scrapeTrades drv a))) = log w @ e1 @ e2"
    "Invoked Login \<notin> set (stages e2)" by blast
  from e2(1) have "log (snd (andThen p (\<lambda>u. scrapeTrades drv a))) = log w @ (e1 @ e2)" by simp
  from andThen_no_login [OF this, of "updateTrades drv a"] up
  obtain e3 where e3:
    "log (snd (andThen (andThen p (\<lambda>u. scrapeTrades drv a)) (updateTrades drv a)))
       = log w @ (e1 @ e2) @ e3"
    "Invoked Login \<notin> set (stages e3)" by blast
  from e3(1) have "log (snd (andThen (andThen p (\<lambda>u. scrapeTrades drv a)) (updateTrades drv a)))
       = log w @ (e1 @ e2 @ e3)" by simp
  from andThen_no_login [OF this, of "\<lambda>u. scheduleUpdateTrades n drv a"] sd
  obtain e4 where e4:
    "log (snd (andThen (andThen (andThen p (\<lambda>u. scrapeTrades drv a)) (updateTrades drv a))
        (\<lambda>u. scheduleUpdateTrades n drv a))) = log w @ (e1 @ e2 @ e3) @ e4"
    "Invoked Login \<notin> set (stages e4)" by blast
  show ?thesis
    using e2(2) e3(2) e4 by (intro exI [of _ "e2 @ e3 @ e4"]) simp
qed

lemma bump_action_login_once:
  "if fst (boot drv a w) = Fulfilled ()
   then \<exists>rest. stages (emitted w (snd (bump_action n drv a w)))
                 = Invoked Boot # Invoked Login # rest \<and> Invoked Login \<notin> set rest
   else stages (emitted w (snd (bump_action n drv a w))) = [Invoked Boot]"
proof -
  obtain eb where eb: "log (snd (boot drv a w)) = log w @ Invoked Boot # eb" "stages eb = []"
    using boot_run [of drv a w] by blast
  show ?thesis
  proof (cases "fst (boot drv a w)")
    case (Rejected e)
    then have b: "boot drv a w = (Rejected e, snd (boot drv a w))"
      by (simp add: prod_eq_iff)
    have "bump_action n drv a w = (Rejected e, snd (boot drv a w))"
      unfolding bump_action_def by (subst b) (simp add: andThen_def)
    then have "emitted w (snd (bump_action n drv a w)) = Invoked Boot # eb"
      using eb(1) by (simp add: emitted_append)
    with Rejected eb(2) show ?thesis by simp
  next
    case (Fulfilled u)
    define w1 where "w1 = snd (boot drv a w)"
    from Fulfilled have b: "boot drv a w = (Fulfilled (), w1)"
      by (simp add: prod_eq_iff w1_def)
    obtain ds where lg: "log (snd (login drv a w1)) =
          log w1 @ Invoked Login # Notice (LoggingIn (emailAddress (prefs w1))) # called ds
            @ (if threw ds then [] else [Notice (LoggedIn (emailAddress (prefs w1)))])"
      using login_run [of drv a w1] by blast
    let ?el = "Notice (LoggingIn (emailAddress (prefs w1))) # called ds
            @ (if threw ds then [] else [Notice (LoggedIn (emailAddress (prefs w1)))])"
    have sl: "stages ?el = []" by simp
    have l1: "log (snd (login drv a w1)) = log w @ (Invoked Boot # eb @ Invoked Login # ?el)"
      using lg eb(1) by (simp add: w1_def)
    have unf: "bump_action n drv a w =
        andThen (andThen (andThen (login drv a w1) (\<lambda>u. scrapeTrades drv a))
          (updateTrades drv a)) (\<lambda>u. scheduleUpdateTrades n drv a)"
      unfolding bump_action_def by (subst b) (simp add: andThen_def)
    from after_login_no_login [OF l1, of drv a n] obtain e2 where e2:
      "log (snd (bump_action n drv a w)) = log w @ (Invoked Boot # eb @ Invoked Login # ?el) @ e2"
      "Invoked Login \<notin> set (stages e2)"
      unfolding unf by blast
    have "emitted w (snd (bump_action n drv a w)) = (Invoked Boot # eb @ Invoked Login # ?el) @ e2"
      using e2(1) by (rule emitted_append)
    then have "stages (emitted w (snd (bump_action n drv a w)))
        = Invoked Boot # Invoked Login # stages e2"
      using eb(2) sl by (simp del: stages.simps(1) add: stages.simps)
    with Fulfilled e2(2) show ?thesis by simp
  qed
qed

text \<open>
  Claim C5, as amended. For an interval from 1 to 35791 minutes a run of
  scheduleUpdateTrades takes this course, however the bumps end: the scheduler asks for a
  timer of exactly \<open>interval\<close> minutes; the process waits exactly that long, and the clock
  shows that much more when the callback starts; then scrapeTrades, updateTrades and
  scheduleUpdateTrades are called, in this order, and the next timer is asked for. This
  goes on for as long as the timer is let fire (\<open>n\<close> times), unless scrapeTrades is
  rejected: then its call is the last one, and no further timer is asked for. When no call
  of scrapeTrades on the page can throw, the run never ends that way. In the whole action
  of the bump command login is called once, right after boot, and never again.
\<close>

theorem scheduleUpdateTrades_course:
  assumes "1 \<le> minutes_of (interval a)" and "minutes_of (interval a) \<le> 35791"
  shows
  "let run = scheduleUpdateTrades n drv a w;
       evs = emitted w (snd run);
       d = 60000 * minutes_of (interval a);
       cycle = [Waited d, Invoked ScrapeTrades, Invoked UpdateTrades,
                Invoked ScheduleUpdateTrades, Timer (Exact d)]
   in (\<exists>k. stages evs =
            [Invoked ScheduleUpdateTrades, Timer (Exact d)] @ concat (replicate k cycle)
            @ (case fst run of
                 Fulfilled u \<Rightarrow> [] | Rejected e \<Rightarrow> [Waited d, Invoked ScrapeTrades])
          \<and> (case fst run of Fulfilled u \<Rightarrow> k = n | Rejected e \<Rightarrow> k < n))
      \<and> clock (timer_fires a (set_timeout a (enter ScheduleUpdateTrades w))) = clock w + d
      \<and> ((\<forall>h. \<not> is_throw (drv h (Goto (trades_page (prefs w)))) \<and> \<not> is_throw (drv h Evaluate))
           \<longrightarrow> fst run = Fulfilled ())
      \<and> (if fst (boot drv a w) = Fulfilled ()
          then \<exists>rest. stages (emitted w (snd (bump_action n drv a w)))
                        = Invoked Boot # Invoked Login # rest \<and> Invoked Login \<notin> set rest
          else stages (emitted w (snd (bump_action n drv a w))) = [Invoked Boot])"
proof -
  note d = timer_delay_in_range [OF assms]
  have ed: "effective_delay (Exact (60000 * minutes_of (interval a)))
      = 60000 * minutes_of (interval a)"
    using d(2) by (simp only: d(1))
  obtain k evs where ke:
    "log (snd (scheduleUpdateTrades n drv a w)) = log w @ evs"
    "stages evs =
         [Invoked ScheduleUpdateTrades, Timer (timer_delay a)]
         @ concat (replicate k
             [Waited (effective_delay (timer_delay a)), Invoked ScrapeTrades, Invoked UpdateTrades,
              Invoked ScheduleUpdateTrades, Timer (timer_delay a)])
         @ (case fst (scheduleUpdateTrades n drv a w) of
              Fulfilled u \<Rightarrow> []
            | Rejected e \<Rightarrow> [Waited (effective_delay (timer_delay a)), Invoked ScrapeTrades])"
    "case fst (scheduleUpdateTrades n drv a w) of
           Fulfilled u \<Rightarrow> k = n | Rejected e \<Rightarrow> k < n"
    using sched_course [of n drv a w] by blast
  have em: "emitted w (snd (scheduleUpdateTrades n drv a w)) = evs"
    using ke(1) by (rule emitted_append)
  have course: "\<exists>k. stages evs =
        [Invoked ScheduleUpdateTrades, Timer (Exact (60000 * minutes_of (interval a)))]
        @ concat (replicate k
            [Waited (60000 * minutes_of (interval a)), Invoked ScrapeTrades, Invoked UpdateTrades,
             Invoked ScheduleUpdateTrades, Timer (Exact (60000 * minutes_of (interval a)))])
        @ (case fst (scheduleUpdateTrades n drv a w) of
             Fulfilled u \<Rightarrow> []
           | Rejected e \<Rightarrow> [Waited (60000 * minutes_of (interval a)), Invoked ScrapeTrades])
      \<and> (case fst (scheduleUpdateTrades n drv a w) of
           Fulfilled u \<Rightarrow> k = n | Rejected e \<Rightarrow> k < n)"
    using ke(2,3) unfolding d(1) ed by blast
  have waited: "clock (timer_fires a (set_timeout a (enter ScheduleUpdateTrades w)))
      = clock w + 60000 * minutes_of (interval a)"
    by (simp only: timer_fires_sel(3) d(2)) (simp add: set_timeout_def Let_def)
  have never: "(\<forall>h. \<not> is_throw (drv h (Goto (trades_page (prefs w)))) \<and> \<not> is_throw (drv h Evaluate))
           \<longrightarrow> fst (scheduleUpdateTrades n drv a w) = Fulfilled ()"
    using sched_fulfilled [of drv "prefs w" w n a] by blast
  show ?thesis
    unfolding Let_def em
    using course waited never bump_action_login_once [of drv a w n] by (intro conjI)
qed

theorem scheduleUpdateTrades_course_witness:
  "fst (scheduleUpdateTrades 2 three_listings (every_15 ''all'') joe) = Fulfilled ()
   \<and> stages (emitted joe (snd (scheduleUpdateTrades 2 three_listings (every_15 ''all'') joe))) =
       [Invoked ScheduleUpdateTrades, Timer (Exact 900000),
        Waited 900000, Invoked ScrapeTrades, Invoked UpdateTrades,
        Invoked ScheduleUpdateTrades, Timer (Exact 900000),
        Waited 900000, Invoked ScrapeTrades, Invoked UpdateTrades,
        Invoked ScheduleUpdateTrades, Timer (Exact 900000)]"
proof -
  let ?a = "every_15 ''all''"
  let ?run = "scheduleUpdateTrades 2 three_listings ?a joe"
  have m: "minutes_of (interval ?a) = 15"
    by (simp add: every_15_def decimal_def digit_value_def)
  have h: "\<forall>h. \<not> is_throw (three_listings h (Goto (trades_page (prefs joe))))
              \<and> \<not> is_throw (three_listings h Evaluate)"
    by (simp add: three_listings_def trades_page_def joe_def)
  have r1: "1 \<le> minutes_of (interval ?a)" and r2: "minutes_of (interval ?a) \<le> 35791"
    by (simp_all add: m)
  note c = scheduleUpdateTrades_course [OF r1 r2, of 2 three_listings joe, unfolded Let_def m]
  from c h have f: "fst ?run = Fulfilled ()" by blast
  from c obtain k where
    "stages (emitted joe (snd ?run)) =
       [Invoked ScheduleUpdateTrades, Timer (Exact (60000 * 15))]
       @ concat (replicate k [Waited (60000 * 15), Invoked ScrapeTrades, Invoked UpdateTrades,
           Invoked ScheduleUpdateTrades, Timer (Exact (60000 * 15))])
       @ (case fst ?run of
            Fulfilled u \<Rightarrow> [] | Rejected e \<Rightarrow> [Waited (60000 * 15), Invoked ScrapeTrades])"
    "case fst ?run of Fulfilled u \<Rightarrow> k = 2 | Rejected e \<Rightarrow> k < 2"
    by blast
  with f have "stages (emitted joe (snd ?run)) =
       [Invoked ScheduleUpdateTrades, Timer (Exact (60000 * 15))]
       @ concat (replicate 2 [Waited (60000 * 15), Invoked ScrapeTrades, Invoked UpdateTrades,
           Invoked ScheduleUpdateTrades, Timer (Exact (60000 * 15))])"
    by simp
  then show ?thesis
    using f by (simp add: numeral_2_eq_2)
qed

text \<open>
  Claim C5 as stated fails twice. The process is let run for two timers and the pages do
  not load: after the first timer scrapeTrades is rejected, updateTrades and
  scheduleUpdateTrades are not called again and there is no second timer. And with an
  interval of 35792 minutes the delay asked for is above \<open>2^31 - 1\<close> milliseconds: the
  process waits one millisecond, not 35792 minutes; with an interval of 0 the delay asked
  for is below 1, and the process waits one millisecond as well.
\<close>

theorem discovery_error_ends_the_cycle:
  "fst (scheduleUpdateTrades (Suc (Suc 0)) offline (every_15 ''all'') joe) = Rejected ''timeout''
   \<and> stages (emitted joe (snd (scheduleUpdateTrades (Suc (Suc 0)) offline (every_15 ''all'')
        joe))) =
       [Invoked ScheduleUpdateTrades, Timer (Exact 900000), Waited 900000, Invoked ScrapeTrades]
   \<and> stages (emitted joe (snd (scheduleUpdateTrades (Suc 0) offline
        \<lparr>target = ''all'', interval = Digits ''35792''\<rparr> joe))) =
       [Invoked ScheduleUpdateTrades, Timer (Exact 2147520000), Waited 1, Invoked ScrapeTrades]
   \<and> stages (emitted joe (snd (scheduleUpdateTrades (Suc 0) offline
        \<lparr>target = ''all'', interval = Digits ''0''\<rparr> joe))) =
       [Invoked ScheduleUpdateTrades, Timer (Exact 0), Waited 1, Invoked ScrapeTrades]"
  by (simp add: andThen_def scrapeTrades_def set_timeout_def timer_fires_def
      timer_delay_def to_number_def exact_def decimal_def digit_value_def
      trades_page_def offline_def every_15_def joe_def
      page_invoke_def Let_def enter_def notify_def emitted_def)

end
